theory Spec2Isabelle
  imports Main
begin

section \<open>The catalogue scraper of \<^verbatim>\<open>scraper.py\<close>\<close>

text \<open>
  The development embeds the class \<^verbatim>\<open>Scraper\<close> and the endpoint \<^verbatim>\<open>start_scraping\<close>.
  Everything the Python reaches outside its own process is explicit:
  \<^item> the web server is a function from the index of a GET and its URL to the reply
    (so a server may answer the same URL differently each time);
  \<^item> the Redis cache, the clock, the file system and the notification sink are fields
    of a \<open>world\<close> that every operation takes and returns;
  \<^item> an exception is the \<open>Inl\<close> branch of a sum; the world at the raise is returned
    with it, so that what happened before the raise stays visible.
  Output written with \<^verbatim>\<open>print\<close> inside \<^verbatim>\<open>scrape_page\<close> and \<^verbatim>\<open>scrape_catalogue\<close> is not
  modelled; the subscript \<^verbatim>\<open>img['src']\<close> evaluated for that output is, since it can raise.
\<close>

subsection \<open>Settings and data\<close>

definition CACHE_EXPIRY :: nat where
  "CACHE_EXPIRY = 3600"

record ScrapeSettings =
  max_pages :: "int option"
  proxy :: "string option"

record ScrapedProduct =
  name :: string
  price :: string
  url :: string

datatype error = RequestException | KeyError

subsection \<open>The page source\<close>

text \<open>
  What BeautifulSoup selects from one page, in document order: the stripped text of each
  title element, the stripped text of each price element, and for each \<^verbatim>\<open>img\<close> element
  the value of its \<^verbatim>\<open>src\<close> attribute, \<open>None\<close> when the element has none.
\<close>

record soup =
  titles :: "string list"
  prices :: "string list"
  images :: "string option list"

datatype reply = TransportFailure | Html soup

text \<open>
  The server: the reply to the \<open>n\<close>-th GET since the world began (counting from 0), sent to
  the given URL, and the seconds the GET took.
\<close>

type_synonym network = "nat \<Rightarrow> string \<Rightarrow> reply \<times> nat"

subsection \<open>The cache\<close>

text \<open>
  Modelled from the spec: the Redis service behind \<^verbatim>\<open>cache\<close> is not part of the source. An
  entry holds the last price string and the time it expires at; an expired entry is
  treated as absent; \<open>set\<close> overwrites the entry and restarts its time to live.
\<close>

type_synonym redis = "string \<rightharpoonup> (string \<times> nat)"

definition cache_get :: "redis \<Rightarrow> nat \<Rightarrow> string \<Rightarrow> string option" where
  "cache_get c t k =
     (case c k of
        None \<Rightarrow> None
      | Some (v, expires_at) \<Rightarrow> if t < expires_at then Some v else None)"

definition cache_set :: "redis \<Rightarrow> nat \<Rightarrow> string \<Rightarrow> string \<Rightarrow> nat \<Rightarrow> redis" where
  "cache_set c t k v ex = c(k \<mapsto> (v, t + ex))"

subsection \<open>The world and the scraper object\<close>

datatype json = JString string | JProducts "ScrapedProduct list"

record world =
  requests :: "string list"
  now :: nat
  cache :: redis
  files :: "string \<rightharpoonup> json"
  notified :: "string list"

record Scraper =
  settings :: ScrapeSettings
  scraped_data :: "ScrapedProduct list"

definition sleep :: "nat \<Rightarrow> world \<Rightarrow> world" where
  "sleep secs w = w\<lparr>now := now w + secs\<rparr>"

text \<open>\<^verbatim>\<open>FileStorageStrategy.save\<close>: the file at \<open>filepath\<close> is replaced by the dump of \<open>data\<close>.\<close>

definition save :: "json \<Rightarrow> string \<Rightarrow> world \<Rightarrow> world" where
  "save data filepath w = w\<lparr>files := (files w)(filepath \<mapsto> data)\<rparr>"

text \<open>\<^verbatim>\<open>ConsoleNotificationStrategy.notify\<close>.\<close>

definition notify :: "string \<Rightarrow> world \<Rightarrow> world" where
  "notify message w = w\<lparr>notified := notified w @ [message]\<rparr>"

subsection \<open>Formatting integers\<close>

definition digit :: "nat \<Rightarrow> char" where
  "digit d = ''0123456789'' ! d"

fun str_nat :: "nat \<Rightarrow> string" where
  "str_nat n = (if n < 10 then [digit n] else str_nat (n div 10) @ [digit (n mod 10)])"

declare str_nat.simps [simp del]

definition str_int :: "int \<Rightarrow> string" where
  "str_int i = (if i < 0 then CHR ''-'' # str_nat (nat (- i)) else str_nat (nat i))"

text \<open>\<^verbatim>\<open>f"{base_url}?page={page}"\<close>\<close>

definition page_url :: "string \<Rightarrow> int \<Rightarrow> string" where
  "page_url base_url page = base_url @ ''?page='' @ str_int page"

subsection \<open>\<^verbatim>\<open>Scraper.scrape_page\<close>\<close>

text \<open>
  The loop \<^verbatim>\<open>for img in images: img_url = img['src']\<close>: the subscript raises \<^verbatim>\<open>KeyError\<close> at
  the first element without the attribute.
\<close>

fun image_srcs :: "string option list \<Rightarrow> error + string list" where
  "image_srcs [] = Inr []"
| "image_srcs (None # imgs) = Inl KeyError"
| "image_srcs (Some s # imgs) =
     (case image_srcs imgs of Inl e \<Rightarrow> Inl e | Inr ss \<Rightarrow> Inr (s # ss))"

text \<open>The part of \<^verbatim>\<open>scrape_page\<close> after the GET: the three selections and the \<^verbatim>\<open>zip\<close> loop.\<close>

definition parse :: "soup \<Rightarrow> error + ScrapedProduct list" where
  "parse s =
     (case image_srcs (images s) of
        Inl e \<Rightarrow> Inl e
      | Inr srcs \<Rightarrow>
          Inr (map (\<lambda>(title, price_text, image_url).
                      \<lparr>name = title, price = price_text, url = image_url\<rparr>)
                   (zip (titles s) (zip (prices s) srcs))))"

definition scrape_page ::
  "network \<Rightarrow> string \<Rightarrow> world \<Rightarrow> (error + ScrapedProduct list) \<times> world" where
  "scrape_page net u w =
     (case net (length (requests w)) u of
        (r, took) \<Rightarrow>
          (let w' = w\<lparr>requests := requests w @ [u], now := now w + took\<rparr>
           in case r of
                TransportFailure \<Rightarrow> (Inl RequestException, w')
              | Html s \<Rightarrow> (parse s, w')))"

subsection \<open>\<^verbatim>\<open>Scraper.scrape_catalogue\<close>\<close>

text \<open>
  The retry loop \<^verbatim>\<open>while retries > 0\<close>. The variable \<^verbatim>\<open>products\<close> is carried through the loop;
  the loop is entered with \<^verbatim>\<open>retries = 3\<close>, so the value it is entered with is never the
  result.
\<close>

fun retry_loop ::
  "network \<Rightarrow> string \<Rightarrow> nat \<Rightarrow> ScrapedProduct list \<Rightarrow> world
     \<Rightarrow> (error + ScrapedProduct list) \<times> world" where
  "retry_loop net u 0 products w = (Inr products, w)"
| "retry_loop net u (Suc retries) products w =
     (case scrape_page net u w of
        (Inl e, w') \<Rightarrow> (Inl e, w')
      | (Inr products', w') \<Rightarrow>
          if products' \<noteq> [] then (Inr products', w')
          else retry_loop net u retries products' (sleep 2 w'))"

text \<open>The body of \<^verbatim>\<open>for product in products\<close>.\<close>

definition process_product :: "ScrapedProduct \<Rightarrow> Scraper \<Rightarrow> world \<Rightarrow> Scraper \<times> world" where
  "process_product product self w =
     (let cache_key = ''product:'' @ name product;
          cached_price = cache_get (cache w) (now w) cache_key
      in if cached_price = None \<or> cached_price \<noteq> Some (price product)
         then (self\<lparr>scraped_data := scraped_data self @ [product]\<rparr>,
               w\<lparr>cache := cache_set (cache w) (now w) cache_key (price product) CACHE_EXPIRY\<rparr>)
         else (self, w))"

fun process_products :: "ScrapedProduct list \<Rightarrow> Scraper \<Rightarrow> world \<Rightarrow> Scraper \<times> world" where
  "process_products [] self w = (self, w)"
| "process_products (product # rest) self w =
     (case process_product product self w of
        (self', w') \<Rightarrow> process_products rest self' w')"

text \<open>\<^verbatim>\<open>self.settings.max_pages and page > self.settings.max_pages\<close>: \<^verbatim>\<open>None\<close> and \<^verbatim>\<open>0\<close> are falsy.\<close>

definition max_pages_exceeded :: "ScrapeSettings \<Rightarrow> int \<Rightarrow> bool" where
  "max_pages_exceeded st page =
     (case max_pages st of
        None \<Rightarrow> False
      | Some m \<Rightarrow> m \<noteq> 0 \<and> page > m)"

function scrape_loop ::
  "network \<Rightarrow> string \<Rightarrow> int \<Rightarrow> Scraper \<Rightarrow> world \<Rightarrow> (error + unit) \<times> Scraper \<times> world" where
  "scrape_loop net base_url page self w =
     (if page < 10 then
        if max_pages_exceeded (settings self) page then (Inr (), self, w)
        else
          (case retry_loop net (page_url base_url page) 3 [] w of
             (Inl e, w') \<Rightarrow> (Inl e, self, w')
           | (Inr products, w') \<Rightarrow>
               (case process_products products self w' of
                  (self', w'') \<Rightarrow>
                    if products = [] then (Inr (), self', w'')
                    else scrape_loop net base_url (page + 1) self' w''))
      else (Inr (), self, w))"
  by pat_completeness auto
termination
  by (relation "measure (\<lambda>(net, base_url, page, self, w). nat (10 - page))") auto

declare scrape_loop.simps [simp del]

definition scrape_catalogue ::
  "network \<Rightarrow> string \<Rightarrow> Scraper \<Rightarrow> world \<Rightarrow> (error + unit) \<times> Scraper \<times> world" where
  "scrape_catalogue net base_url self w = scrape_loop net base_url 1 self w"

subsection \<open>\<^verbatim>\<open>start_scraping\<close>\<close>

record scrape_response =
  message :: string
  products_scraped :: nat

definition start_scraping ::
  "network \<Rightarrow> ScrapeSettings \<Rightarrow> string \<Rightarrow> world \<Rightarrow> (error + scrape_response) \<times> Scraper \<times> world" where
  "start_scraping net st base_url w =
     (let scraper = \<lparr>settings = st, scraped_data = []\<rparr>
      in case scrape_catalogue net base_url scraper w of
           (Inl e, scraper', w') \<Rightarrow> (Inl e, scraper', w')
         | (Inr u, scraper', w') \<Rightarrow>
             (let w1 = save (JString ''scraped_data.json'') ''./data.json'' w';
                  w2 = notify (''Scraping complete. ''
                               @ str_nat (length (scraped_data scraper'))
                               @ '' products scraped.'') w1
              in (Inr \<lparr>message = ''Scraping completed successfully.'',
                       products_scraped = length (scraped_data scraper')\<rparr>,
                  scraper', w2)))"

section \<open>Notions the statements use\<close>

text \<open>
  The outcome of the \<open>j\<close>-th call of \<^verbatim>\<open>scrape_page\<close> that a retry loop entered in world
  \<open>w\<close> makes for the URL \<open>u\<close>, read off the server.
\<close>

definition attempt :: "network \<Rightarrow> string \<Rightarrow> world \<Rightarrow> nat \<Rightarrow> error + ScrapedProduct list" where
  "attempt net u w j =
     (case fst (net (length (requests w) + j) u) of
        TransportFailure \<Rightarrow> Inl RequestException
      | Html s \<Rightarrow> parse s)"

text \<open>The reply is a page from which \<^verbatim>\<open>scrape_page\<close> returns at least one record.\<close>

definition yields_products :: "reply \<Rightarrow> bool" where
  "yields_products r =
     (case r of
        TransportFailure \<Rightarrow> False
      | Html s \<Rightarrow> (case parse s of Inl e \<Rightarrow> False | Inr ps \<Rightarrow> ps \<noteq> []))"

text \<open>
  The state of the page loop after \<open>n\<close> full iterations, each of which found a non-empty
  page: the page the loop is about to test, the scraper and the world. \<open>None\<close> when the loop
  ends before that.
\<close>

fun pages_done ::
  "network \<Rightarrow> string \<Rightarrow> nat \<Rightarrow> int \<Rightarrow> Scraper \<Rightarrow> world \<Rightarrow> (int \<times> Scraper \<times> world) option" where
  "pages_done net base_url 0 page self w = Some (page, self, w)"
| "pages_done net base_url (Suc n) page self w =
     (if page < 10 \<and> \<not> max_pages_exceeded (settings self) page then
        (case retry_loop net (page_url base_url page) 3 [] w of
           (Inl e, w') \<Rightarrow> None
         | (Inr products, w') \<Rightarrow>
             if products = [] then None
             else (case process_products products self w' of
                     (self', w'') \<Rightarrow> pages_done net base_url n (page + 1) self' w''))
      else None)"

text \<open>
  A stretch of a run that starts with the request log \<open>rs\<close> and ends with the log \<open>rs'\<close>
  never goes on after a transport failure: the log only grew, and a GET of the stretch
  that the server answered with a transport failure is the last GET of the stretch, which
  then raised (\<open>raised\<close> says whether the stretch ended in \<^verbatim>\<open>RequestException\<close>).
\<close>

definition stops_at_failure :: "network \<Rightarrow> string list \<Rightarrow> bool \<Rightarrow> string list \<Rightarrow> bool" where
  "stops_at_failure net rs raised rs' =
     (\<exists>new. rs' = rs @ new
        \<and> (\<forall>j<length new. fst (net (length rs + j) (new ! j)) = TransportFailure
               \<longrightarrow> Suc j = length new \<and> raised))"

section \<open>Concrete inputs\<close>

definition world0 :: world where
  "world0 = \<lparr>requests = [], now = 0, cache = Map.empty, files = Map.empty, notified = []\<rparr>"

text \<open>A page with five titles, four prices and six images.\<close>

definition soup546 :: soup where
  "soup546 = \<lparr>titles = [''T1'', ''T2'', ''T3'', ''T4'', ''T5''],
              prices = [''1'', ''2'', ''3'', ''4''],
              images = [Some ''a'', Some ''b'', Some ''c'', Some ''d'', Some ''e'', Some ''f'']\<rparr>"

definition net546 :: network where
  "net546 n u = (Html soup546, 1)"

text \<open>A page with one title, one price and two images, the second without \<^verbatim>\<open>src\<close>.\<close>

definition soup_no_src :: soup where
  "soup_no_src = \<lparr>titles = [''T1''], prices = [''1''], images = [Some ''a'', None]\<rparr>"

definition net_no_src :: network where
  "net_no_src n u = (Html soup_no_src, 1)"

definition scraper0 :: Scraper where
  "scraper0 = \<lparr>settings = \<lparr>max_pages = None, proxy = None\<rparr>, scraped_data = []\<rparr>"

definition X10 :: ScrapedProduct where
  "X10 = \<lparr>name = ''X'', price = ''10'', url = ''x.png''\<rparr>"

definition X12 :: ScrapedProduct where
  "X12 = \<lparr>name = ''X'', price = ''12'', url = ''x.png''\<rparr>"

text \<open>The world in which \<open>X10\<close> was first seen at time 0, fifty seconds later.\<close>

definition world_seen :: world where
  "world_seen = sleep 50 (snd (process_product X10 scraper0 world0))"

definition empty_soup :: soup where
  "empty_soup = \<lparr>titles = [], prices = [], images = []\<rparr>"

definition soupA :: soup where
  "soupA = \<lparr>titles = [''A''], prices = [''10''], images = [Some ''a.png'']\<rparr>"

definition productA :: ScrapedProduct where
  "productA = \<lparr>name = ''A'', price = ''10'', url = ''a.png''\<rparr>"

text \<open>A server that answers with an empty page twice and then with the page of \<open>A\<close>.\<close>

definition net_empty_empty_A :: network where
  "net_empty_empty_A n u = (if n < 2 then (Html empty_soup, 1) else (Html soupA, 1))"

text \<open>A server whose every page is empty.\<close>

definition net_always_empty :: network where
  "net_always_empty n u = (Html empty_soup, 1)"

text \<open>A server whose first page holds \<open>A\<close> and whose second GET fails.\<close>

definition net_A_then_down :: network where
  "net_A_then_down n u = (if n = 0 then (Html soupA, 1) else (TransportFailure, 30))"

definition productP :: ScrapedProduct where
  "productP = \<lparr>name = ''P'', price = ''5'', url = ''p.png''\<rparr>"

definition productQ :: ScrapedProduct where
  "productQ = \<lparr>name = ''Q'', price = ''6'', url = ''q.png''\<rparr>"

definition productR :: ScrapedProduct where
  "productR = \<lparr>name = ''R'', price = ''7'', url = ''r.png''\<rparr>"

text \<open>
  The catalogue of the end-to-end scenario: page 1 holds \<open>P\<close> and \<open>Q\<close>, page 2 holds \<open>P\<close> at
  the same price and \<open>R\<close>, and every later GET returns an empty page.
\<close>

definition net_scenario :: network where
  "net_scenario n u =
     (if n = 0 then
        (Html \<lparr>titles = [''P'', ''Q''], prices = [''5'', ''6''],
               images = [Some ''p.png'', Some ''q.png'']\<rparr>, 1)
      else if n = 1 then
        (Html \<lparr>titles = [''P'', ''R''], prices = [''5'', ''7''],
               images = [Some ''p.png'', Some ''r.png'']\<rparr>, 1)
      else (Html empty_soup, 1))"

definition scraper3 :: Scraper where
  "scraper3 = \<lparr>settings = \<lparr>max_pages = Some 3, proxy = None\<rparr>, scraped_data = []\<rparr>"

text \<open>A server whose every page holds \<open>A\<close>.\<close>

definition net_always_A :: network where
  "net_always_A n u = (Html soupA, 1)"


definition scraper_zero :: Scraper where
  "scraper_zero = \<lparr>settings = \<lparr>max_pages = Some 0, proxy = None\<rparr>, scraped_data = []\<rparr>"

section \<open>Properties of \<^verbatim>\<open>scrape_page\<close>\<close>

lemma image_srcs_map_Some: "image_srcs (map Some srcs) = Inr srcs"
  by (induction srcs) simp_all

lemma parse_with_srcs:
  "images s = map Some srcs \<Longrightarrow>
   parse s = Inr (map (\<lambda>(title, price_text, image_url).
                      \<lparr>name = title, price = price_text, url = image_url\<rparr>)
                   (zip (titles s) (zip (prices s) srcs)))"
  by (simp add: parse_def image_srcs_map_Some)

lemma image_srcs_missing: "None \<in> set imgs \<Longrightarrow> image_srcs imgs = Inl KeyError"
proof (induction imgs)
  case Nil
  then show ?case by simp
next
  case (Cons img imgs)
  then show ?case
    by (cases img) auto
qed

text \<open>An \<^verbatim>\<open>img\<close> without \<^verbatim>\<open>src\<close> anywhere on the page makes \<^verbatim>\<open>scrape_page\<close> raise.\<close>

lemma parse_image_without_src: "None \<in> set (images s) \<Longrightarrow> parse s = Inl KeyError"
  by (simp add: parse_def image_srcs_missing)

lemma scrape_page_requests:
  "requests (snd (scrape_page net u w)) = requests w @ [u]"
  by (simp add: scrape_page_def Let_def split: prod.splits reply.splits)

lemma scrape_page_Html:
  "net (length (requests w)) u = (Html s, took) \<Longrightarrow> fst (scrape_page net u w) = parse s"
  by (simp add: scrape_page_def Let_def)

lemma scrape_page_Failure:
  "net (length (requests w)) u = (TransportFailure, took) \<Longrightarrow>
   fst (scrape_page net u w) = Inl RequestException"
  by (simp add: scrape_page_def Let_def)

text \<open>
  Claim C5, as the code has it. When the GET returns a page whose selections hold
  \<open>t\<close> titles, \<open>p\<close> prices and \<open>i\<close> images, and every one of the \<open>i\<close> selected
  \<^verbatim>\<open>img\<close> elements carries a \<^verbatim>\<open>src\<close> attribute, \<^verbatim>\<open>scrape_page\<close> returns exactly
  \<open>min t (min p i)\<close> records, and the \<open>k\<close>-th record pairs the \<open>k\<close>-th title with the
  \<open>k\<close>-th price and the \<open>k\<close>-th image URL. With equal counts that is every item of the page.
\<close>

theorem scrape_page_pairs_facets:
  assumes "net (length (requests w)) u = (Html s, took)"
      and "images s = map Some srcs"
  shows "\<exists>products. fst (scrape_page net u w) = Inr products
          \<and> length products = min (length (titles s)) (min (length (prices s)) (length (images s)))
          \<and> (\<forall>k < length products.
                products ! k = \<lparr>name = titles s ! k, price = prices s ! k, url = srcs ! k\<rparr>)"
proof -
  let ?ps = "map (\<lambda>(title, price_text, image_url).
                      \<lparr>name = title, price = price_text, url = image_url\<rparr>)
                   (zip (titles s) (zip (prices s) srcs))"
  have "fst (scrape_page net u w) = Inr ?ps"
    using assms by (simp add: scrape_page_Html parse_with_srcs)
  moreover have "length ?ps = min (length (titles s)) (min (length (prices s)) (length (images s)))"
    using assms(2) by simp
  moreover have "\<forall>k < length ?ps.
       ?ps ! k = \<lparr>name = titles s ! k, price = prices s ! k, url = srcs ! k\<rparr>"
    by simp
  ultimately show ?thesis by blast
qed

theorem scrape_page_pairs_facets_witness:
  "\<exists>products. fst (scrape_page net546 ''shop?page=1'' world0) = Inr products
      \<and> length products = 4
      \<and> products ! 3 = \<lparr>name = ''T4'', price = ''4'', url = ''d''\<rparr>"
proof -
  have g: "net546 (length (requests world0)) ''shop?page=1'' = (Html soup546, 1)"
    by (simp add: net546_def)
  have i: "images soup546 = map Some [''a'', ''b'', ''c'', ''d'', ''e'', ''f'']"
    by (simp add: soup546_def)
  from scrape_page_pairs_facets [of net546 world0 "''shop?page=1''" soup546 1, OF g i]
  obtain products where
    r: "fst (scrape_page net546 ''shop?page=1'' world0) = Inr products" and
    l: "length products =
          min (length (titles soup546)) (min (length (prices soup546)) (length (images soup546)))" and
    k: "\<forall>k < length products.
          products ! k = \<lparr>name = titles soup546 ! k, price = prices soup546 ! k,
                           url = [''a'', ''b'', ''c'', ''d'', ''e'', ''f''] ! k\<rparr>"
    by blast
  from l have l4: "length products = 4"
    by (simp add: soup546_def)
  with k have "products ! 3 = \<lparr>name = ''T4'', price = ''4'', url = ''d''\<rparr>"
    by (simp add: soup546_def)
  with r l4 show ?thesis
    by blast
qed

text \<open>
  Claim C5, as stated, at a page with one title, one price and two images of which the
  second has no \<^verbatim>\<open>src\<close>: the minimum of the three counts is 1, and \<^verbatim>\<open>scrape_page\<close>
  returns no record but raises \<^verbatim>\<open>KeyError\<close>.
\<close>

theorem image_without_src_raises_counterexample:
  "length (titles soup_no_src) = 1
   \<and> length (prices soup_no_src) = 1
   \<and> length (images soup_no_src) = 2
   \<and> fst (scrape_page net_no_src ''http://shop.example/catalogue?page=1'' world0) = Inl KeyError"
  by (simp add: scrape_page_def net_no_src_def soup_no_src_def parse_def Let_def)

section \<open>Properties of the cache filter\<close>

lemma cache_get_set_same:
  "0 < ex \<Longrightarrow> cache_get (cache_set c t k v ex) t k = Some v"
  by (simp add: cache_get_def cache_set_def)

lemma process_product_accept:
  "cache_get (cache w) (now w) (''product:'' @ name p) \<noteq> Some (price p) \<Longrightarrow>
   process_product p self w =
     (self\<lparr>scraped_data := scraped_data self @ [p]\<rparr>,
      w\<lparr>cache := cache_set (cache w) (now w) (''product:'' @ name p) (price p) CACHE_EXPIRY\<rparr>)"
  by (auto simp: process_product_def Let_def)

lemma process_product_reject:
  "cache_get (cache w) (now w) (''product:'' @ name p) = Some (price p) \<Longrightarrow>
   process_product p self w = (self, w)"
  by (simp add: process_product_def Let_def)

text \<open>
  Claim C1, as the code has it. After a record is processed the cache answers the key
  \<open>''product:'' @ name\<close> with the record's price. When the cache already answered with
  that price, the record is rejected and the cache is left as it was, the entry's expiry
  included: no \<open>set\<close> is performed. Otherwise the record is appended and the entry is
  written with the expiry \<open>now + CACHE_EXPIRY\<close>.
\<close>

theorem process_product_cache:
  assumes "process_product p self w = (self', w')"
  shows "cache_get (cache w') (now w') (''product:'' @ name p) = Some (price p)
       \<and> (if cache_get (cache w) (now w) (''product:'' @ name p) = Some (price p)
          then scraped_data self' = scraped_data self \<and> cache w' = cache w
          else scraped_data self' = scraped_data self @ [p]
             \<and> cache w' (''product:'' @ name p) = Some (price p, now w + CACHE_EXPIRY))"
proof (cases "cache_get (cache w) (now w) (''product:'' @ name p) = Some (price p)")
  case True
  with assms have "self' = self" "w' = w"
    by (simp_all add: process_product_reject)
  with True show ?thesis by simp
next
  case False
  with assms have
    s: "self' = self\<lparr>scraped_data := scraped_data self @ [p]\<rparr>" and
    w: "w' = w\<lparr>cache := cache_set (cache w) (now w) (''product:'' @ name p) (price p) CACHE_EXPIRY\<rparr>"
    by (simp_all add: process_product_accept)
  have "cache_get (cache w') (now w') (''product:'' @ name p) = Some (price p)"
    by (simp add: w cache_get_set_same CACHE_EXPIRY_def)
  moreover have "cache w' (''product:'' @ name p) = Some (price p, now w + CACHE_EXPIRY)"
    by (simp add: w cache_set_def)
  ultimately show ?thesis using False s by simp
qed

lemma world_seen_eq:
  "world_seen = world0\<lparr>now := 50, cache := [''product:X'' \<mapsto> (''10'', 3600)]\<rparr>"
  by (simp add: world_seen_def process_product_def Let_def X10_def world0_def sleep_def
      cache_get_def cache_set_def CACHE_EXPIRY_def)

theorem process_product_cache_witness:
  "cache_get (cache (snd (process_product X10 scraper0 world_seen))) 50 ''product:X'' = Some ''10''
   \<and> scraped_data (fst (process_product X10 scraper0 world_seen)) = []
   \<and> cache (snd (process_product X10 scraper0 world_seen)) = [''product:X'' \<mapsto> (''10'', 3600)]"
  using process_product_cache [of X10 scraper0 world_seen
          "fst (process_product X10 scraper0 world_seen)"
          "snd (process_product X10 scraper0 world_seen)"]
  by (simp add: world_seen_eq X10_def scraper0_def cache_get_def world0_def)

text \<open>
  Claim C1, as stated, at the record \<open>X10\<close> seen again fifty seconds after its first
  sighting: the record is rejected and its entry still expires at 3600, not at 3650.
\<close>

theorem resighting_keeps_old_expiry_counterexample:
  "scraped_data (fst (process_product X10 scraper0 world_seen)) = scraped_data scraper0
   \<and> cache (snd (process_product X10 scraper0 world_seen)) ''product:X'' = Some (''10'', 3600)
   \<and> cache (snd (process_product X10 scraper0 world_seen)) ''product:X''
       \<noteq> Some (''10'', now world_seen + CACHE_EXPIRY)"
  by (simp add: world_seen_eq process_product_def Let_def X10_def cache_get_def world0_def
      CACHE_EXPIRY_def)

lemma process_products_append:
  "process_products (xs @ ys) self w =
     (case process_products xs self w of (self1, w1) \<Rightarrow> process_products ys self1 w1)"
  by (induction xs arbitrary: self w) (simp_all split: prod.splits)

lemma process_product_data:
  "process_product p self w = (self', w') \<Longrightarrow>
   scraped_data self' = scraped_data self \<or> scraped_data self' = scraped_data self @ [p]"
  by (auto simp: process_product_def Let_def split: if_splits)

lemma process_product_settings:
  "process_product p self w = (self', w') \<Longrightarrow> settings self' = settings self"
  by (auto simp: process_product_def Let_def split: if_splits)

lemma process_product_requests:
  "process_product p self w = (self', w') \<Longrightarrow> requests w' = requests w"
  by (auto simp: process_product_def Let_def split: if_splits)

lemma process_products_data_grows:
  "process_products ps self w = (self', w') \<Longrightarrow>
   \<exists>later. scraped_data self' = scraped_data self @ later"
proof (induction ps arbitrary: self w)
  case Nil
  then show ?case by simp
next
  case (Cons p ps)
  obtain s1 w1 where step: "process_product p self w = (s1, w1)"
    by (cases "process_product p self w")
  with Cons.prems have "process_products ps s1 w1 = (self', w')"
    by simp
  from Cons.IH [OF this] obtain later where "scraped_data self' = scraped_data s1 @ later"
    by blast
  with process_product_data [OF step] show ?case
    by auto
qed

lemma process_products_settings:
  "process_products ps self w = (self', w') \<Longrightarrow> settings self' = settings self"
proof (induction ps arbitrary: self w)
  case Nil
  then show ?case by simp
next
  case (Cons p ps)
  obtain s1 w1 where step: "process_product p self w = (s1, w1)"
    by (cases "process_product p self w")
  with Cons.prems have "process_products ps s1 w1 = (self', w')"
    by simp
  from Cons.IH [OF this] process_product_settings [OF step] show ?case
    by simp
qed

lemma process_products_requests:
  "process_products ps self w = (self', w') \<Longrightarrow> requests w' = requests w"
proof (induction ps arbitrary: self w)
  case Nil
  then show ?case by simp
next
  case (Cons p ps)
  obtain s1 w1 where step: "process_product p self w = (s1, w1)"
    by (cases "process_product p self w")
  with Cons.prems have "process_products ps s1 w1 = (self', w')"
    by simp
  from Cons.IH [OF this] process_product_requests [OF step] show ?case
    by simp
qed

text \<open>
  Claim C4. Let the records of a page be \<open>earlier @ p # rest\<close>, and let \<open>self1\<close>, \<open>w1\<close> be
  the scraper and the world once the loop has processed \<open>earlier\<close>: the moment \<open>p\<close> is
  processed. Then \<open>p\<close> is appended to \<open>scraped_data\<close> if and only if the cache at that
  moment has no live entry under \<open>''product:'' @ name p\<close> or answers with a value other
  than the price of \<open>p\<close>; otherwise \<open>scraped_data\<close> is left as it was. What the step
  appends remains there until the loop ends.
\<close>

theorem accepted_iff_absent_or_changed:
  assumes "process_products earlier self w = (self1, w1)"
      and "process_product p self1 w1 = (self2, w2)"
      and "process_products (earlier @ p # rest) self w = (self', w')"
  shows "(scraped_data self2 = scraped_data self1 @ [p]
            \<longleftrightarrow> (cache_get (cache w1) (now w1) (''product:'' @ name p) = None
                 \<or> cache_get (cache w1) (now w1) (''product:'' @ name p) \<noteq> Some (price p)))
       \<and> (scraped_data self2 = scraped_data self1 @ [p] \<or> scraped_data self2 = scraped_data self1)
       \<and> (\<exists>later. scraped_data self' = scraped_data self2 @ later)"
proof -
  have iff: "scraped_data self2 = scraped_data self1 @ [p]
            \<longleftrightarrow> (cache_get (cache w1) (now w1) (''product:'' @ name p) = None
                 \<or> cache_get (cache w1) (now w1) (''product:'' @ name p) \<noteq> Some (price p))"
    using assms(2) by (auto simp: process_product_def Let_def split: if_splits)
  have either: "scraped_data self2 = scraped_data self1 @ [p] \<or> scraped_data self2 = scraped_data self1"
    using process_product_data [OF assms(2)] by blast
  have "process_products rest self2 w2 = (self', w')"
    using assms by (simp add: process_products_append)
  from process_products_data_grows [OF this] iff either show ?thesis
    by blast
qed

theorem accepted_iff_absent_or_changed_witness:
  "scraped_data (fst (process_product X10 (fst (process_products [X10] scraper0 world0))
                        (snd (process_products [X10] scraper0 world0))))
     = scraped_data (fst (process_products [X10] scraper0 world0))
   \<and> cache_get (cache (snd (process_products [X10] scraper0 world0))) 0 ''product:X'' = Some ''10''
   \<and> (\<exists>later. scraped_data (fst (process_products [X10, X10, X12] scraper0 world0)) = [X10] @ later)"
  using accepted_iff_absent_or_changed [of "[X10]" scraper0 world0
          "fst (process_products [X10] scraper0 world0)"
          "snd (process_products [X10] scraper0 world0)"
          X10
          "fst (process_product X10 (fst (process_products [X10] scraper0 world0))
                        (snd (process_products [X10] scraper0 world0)))"
          "snd (process_product X10 (fst (process_products [X10] scraper0 world0))
                        (snd (process_products [X10] scraper0 world0)))"
          "[X12]"
          "fst (process_products [X10, X10, X12] scraper0 world0)"
          "snd (process_products [X10, X10, X12] scraper0 world0)"]
  by (simp add: process_product_def Let_def X10_def X12_def scraper0_def world0_def
      cache_get_def cache_set_def CACHE_EXPIRY_def)

lemma page_of_three_sightings:
  "scraped_data (fst (process_products [X10, X10, X12] scraper0 world0)) = [X10, X12]"
  by (simp add: process_product_def Let_def X10_def X12_def scraper0_def world0_def
      cache_get_def cache_set_def CACHE_EXPIRY_def)

section \<open>Properties of the retry loop\<close>

lemma scrape_page_attempt: "fst (scrape_page net u w) = attempt net u w 0"
  by (simp add: scrape_page_def attempt_def Let_def split: prod.splits reply.splits)

lemma attempt_after_scrape_page:
  "attempt net u (sleep secs (snd (scrape_page net u w))) j = attempt net u w (Suc j)"
  by (simp add: attempt_def sleep_def scrape_page_requests)

lemma requests_sleep: "requests (sleep secs w) = requests w"
  by (simp add: sleep_def)

lemma retry_loop_requests:
  "\<exists>k\<le>retries. requests (snd (retry_loop net u retries ps w)) = requests w @ replicate k u"
proof (induction retries arbitrary: ps w)
  case 0
  show ?case by simp
next
  case (Suc retries)
  obtain r w1 where sp: "scrape_page net u w = (r, w1)"
    by (cases "scrape_page net u w")
  have rq: "requests w1 = requests w @ [u]"
    using scrape_page_requests [of net u w] sp by simp
  show ?case
  proof (cases "r = Inr []")
    case True
    from Suc.IH [of "[]" "sleep 2 w1"] obtain k where
      k: "k \<le> retries"
         "requests (snd (retry_loop net u retries [] (sleep 2 w1))) = requests (sleep 2 w1) @ replicate k u"
      by blast
    have "requests (snd (retry_loop net u (Suc retries) ps w)) = requests w @ replicate (Suc k) u"
      using sp True k(2) rq by (simp add: requests_sleep)
    with k(1) show ?thesis
      by (metis Suc_le_mono)
  next
    case False
    then have "snd (retry_loop net u (Suc retries) ps w) = w1"
      using sp by (cases r) (simp_all)
    then have "requests (snd (retry_loop net u (Suc retries) ps w)) = requests w @ replicate 1 u"
      using rq by simp
    then show ?thesis
      by (metis Suc_le_mono One_nat_def le0)
  qed
qed

lemma retry_loop_first_nonempty:
  assumes "k < retries"
      and "\<forall>j<k. attempt net u w j = Inr []"
      and "attempt net u w k = Inr A"
      and "A \<noteq> []"
  shows "fst (retry_loop net u retries ps w) = Inr A
       \<and> requests (snd (retry_loop net u retries ps w)) = requests w @ replicate (Suc k) u"
  using assms
proof (induction retries arbitrary: k ps w)
  case 0
  then show ?case by simp
next
  case (Suc retries)
  obtain r w1 where sp: "scrape_page net u w = (r, w1)"
    by (cases "scrape_page net u w")
  have rq: "requests w1 = requests w @ [u]"
    using scrape_page_requests [of net u w] sp by simp
  have r0: "r = attempt net u w 0"
    using scrape_page_attempt [of net u w] sp by simp
  show ?case
  proof (cases k)
    case 0
    with Suc.prems r0 have "r = Inr A" by simp
    with sp \<open>A \<noteq> []\<close> rq 0 show ?thesis by simp
  next
    case (Suc k')
    with Suc.prems(2) r0 have re: "r = Inr []" by simp
    have shift: "attempt net u (sleep 2 w1) j = attempt net u w (Suc j)" for j
      using attempt_after_scrape_page [of net u 2 w j] sp by simp
    have "k' < retries"
      using Suc.prems(1) Suc by simp
    moreover have "\<forall>j<k'. attempt net u (sleep 2 w1) j = Inr []"
      using Suc.prems(2) Suc shift by simp
    moreover have "attempt net u (sleep 2 w1) k' = Inr A"
      using Suc.prems(3) Suc shift by simp
    ultimately have
      "fst (retry_loop net u retries [] (sleep 2 w1)) = Inr A
       \<and> requests (snd (retry_loop net u retries [] (sleep 2 w1)))
           = requests (sleep 2 w1) @ replicate (Suc k') u"
      using Suc.IH [of k' "sleep 2 w1" "[]"] \<open>A \<noteq> []\<close> by blast
    with sp re rq Suc show ?thesis
      by (simp add: requests_sleep)
  qed
qed

lemma retry_loop_all_empty:
  assumes "\<forall>j<retries. attempt net u w j = Inr []"
  shows "fst (retry_loop net u retries ps w) = Inr (if retries = 0 then ps else [])
       \<and> requests (snd (retry_loop net u retries ps w)) = requests w @ replicate retries u"
  using assms
proof (induction retries arbitrary: ps w)
  case 0
  then show ?case by simp
next
  case (Suc retries)
  obtain r w1 where sp: "scrape_page net u w = (r, w1)"
    by (cases "scrape_page net u w")
  have rq: "requests w1 = requests w @ [u]"
    using scrape_page_requests [of net u w] sp by simp
  have "r = attempt net u w 0"
    using scrape_page_attempt [of net u w] sp by simp
  with Suc.prems have re: "r = Inr []" by simp
  have shift: "attempt net u (sleep 2 w1) j = attempt net u w (Suc j)" for j
    using attempt_after_scrape_page [of net u 2 w j] sp by simp
  have "\<forall>j<retries. attempt net u (sleep 2 w1) j = Inr []"
    using Suc.prems shift by simp
  from Suc.IH [OF this, of "[]"] sp re rq show ?case
    by (simp add: requests_sleep)
qed


text \<open>
  Claim C6. Entered with \<^verbatim>\<open>retries = 3\<close>, the retry loop calls \<^verbatim>\<open>scrape_page\<close> at most three
  times, each time with the URL of the page. When the first \<open>k\<close> calls return the empty list
  and the next one a non-empty list \<open>A\<close>, the loop makes exactly \<open>k + 1\<close> calls and its
  result is \<open>A\<close>. When all three calls return the empty list, the loop makes exactly three
  calls and its result is the empty list.
\<close>

theorem retry_loop_at_most_three_calls:
  "(\<exists>k\<le>3. requests (snd (retry_loop net u 3 ps w)) = requests w @ replicate k u)
   \<and> (\<forall>k<3. \<forall>A.
         (\<forall>j<k. attempt net u w j = Inr []) \<and> attempt net u w k = Inr A \<and> A \<noteq> [] \<longrightarrow>
           fst (retry_loop net u 3 ps w) = Inr A
         \<and> requests (snd (retry_loop net u 3 ps w)) = requests w @ replicate (Suc k) u)
   \<and> ((\<forall>j<3. attempt net u w j = Inr []) \<longrightarrow>
           fst (retry_loop net u 3 ps w) = Inr []
         \<and> requests (snd (retry_loop net u 3 ps w)) = requests w @ replicate 3 u)"
proof (intro conjI allI impI)
  show "\<exists>k\<le>3. requests (snd (retry_loop net u 3 ps w)) = requests w @ replicate k u"
    by (rule retry_loop_requests)
next
  fix k A
  assume "k < 3"
    and "(\<forall>j<k. attempt net u w j = Inr []) \<and> attempt net u w k = Inr A \<and> A \<noteq> []"
  then show "fst (retry_loop net u 3 ps w) = Inr A"
    and "requests (snd (retry_loop net u 3 ps w)) = requests w @ replicate (Suc k) u"
    using retry_loop_first_nonempty [of k 3 net u w A ps] by blast+
next
  assume "\<forall>j<3. attempt net u w j = Inr []"
  then show "fst (retry_loop net u 3 ps w) = Inr []"
    and "requests (snd (retry_loop net u 3 ps w)) = requests w @ replicate 3 u"
    using retry_loop_all_empty [of 3 net u w ps] by simp_all
qed

lemma parse_empty_soup: "parse empty_soup = Inr []"
  by (simp add: parse_def empty_soup_def)

lemma parse_soupA: "parse soupA = Inr [productA]"
  by (simp add: parse_def soupA_def productA_def)

theorem retry_loop_at_most_three_calls_witness:
  "fst (retry_loop net_empty_empty_A ''shop?page=1'' 3 [] world0) = Inr [productA]
   \<and> requests (snd (retry_loop net_empty_empty_A ''shop?page=1'' 3 [] world0))
       = [''shop?page=1'', ''shop?page=1'', ''shop?page=1'']
   \<and> fst (retry_loop net_always_empty ''shop?page=1'' 3 [] world0) = Inr []
   \<and> requests (snd (retry_loop net_always_empty ''shop?page=1'' 3 [] world0))
       = [''shop?page=1'', ''shop?page=1'', ''shop?page=1'']"
proof -
  let ?u = "''shop?page=1''"
  have e: "\<forall>j<2. attempt net_empty_empty_A ?u world0 j = Inr []"
    by (simp add: attempt_def net_empty_empty_A_def parse_empty_soup world0_def)
  have a: "attempt net_empty_empty_A ?u world0 2 = Inr [productA]"
    by (simp add: attempt_def net_empty_empty_A_def parse_soupA world0_def)
  have z: "\<forall>j<3. attempt net_always_empty ?u world0 j = Inr []"
    by (simp add: attempt_def net_always_empty_def parse_empty_soup)
  have "\<forall>k<3. \<forall>A.
         (\<forall>j<k. attempt net_empty_empty_A ?u world0 j = Inr [])
           \<and> attempt net_empty_empty_A ?u world0 k = Inr A \<and> A \<noteq> [] \<longrightarrow>
           fst (retry_loop net_empty_empty_A ?u 3 [] world0) = Inr A
         \<and> requests (snd (retry_loop net_empty_empty_A ?u 3 [] world0))
             = requests world0 @ replicate (Suc k) ?u"
    using retry_loop_at_most_three_calls [of net_empty_empty_A ?u "[]" world0] by blast
  from this [rule_format, of 2 "[productA]"] e a
  have "fst (retry_loop net_empty_empty_A ?u 3 [] world0) = Inr [productA]
      \<and> requests (snd (retry_loop net_empty_empty_A ?u 3 [] world0))
           = requests world0 @ replicate (Suc 2) ?u"
    by simp
  moreover have "fst (retry_loop net_always_empty ?u 3 [] world0) = Inr []
      \<and> requests (snd (retry_loop net_always_empty ?u 3 [] world0))
           = requests world0 @ replicate 3 ?u"
    using retry_loop_at_most_three_calls [of net_always_empty ?u "[]" world0] z
    by blast
  ultimately show ?thesis
    by (simp add: world0_def numeral_3_eq_3)
qed

section \<open>One iteration of the page loop\<close>

lemma scrape_loop_stop:
  "\<not> (page < 10 \<and> \<not> max_pages_exceeded (settings self) page) \<Longrightarrow>
   scrape_loop net base_url page self w = (Inr (), self, w)"
  by (subst scrape_loop.simps) auto

lemma scrape_loop_raise:
  "page < 10 \<Longrightarrow> \<not> max_pages_exceeded (settings self) page \<Longrightarrow>
   retry_loop net (page_url base_url page) 3 [] w = (Inl e, w1) \<Longrightarrow>
   scrape_loop net base_url page self w = (Inl e, self, w1)"
  by (subst scrape_loop.simps) simp

lemma scrape_loop_empty:
  "page < 10 \<Longrightarrow> \<not> max_pages_exceeded (settings self) page \<Longrightarrow>
   retry_loop net (page_url base_url page) 3 [] w = (Inr [], w1) \<Longrightarrow>
   scrape_loop net base_url page self w = (Inr (), self, w1)"
  by (subst scrape_loop.simps) simp

lemma scrape_loop_next:
  "page < 10 \<Longrightarrow> \<not> max_pages_exceeded (settings self) page \<Longrightarrow>
   retry_loop net (page_url base_url page) 3 [] w = (Inr products, w1) \<Longrightarrow>
   products \<noteq> [] \<Longrightarrow>
   process_products products self w1 = (self2, w2) \<Longrightarrow>
   scrape_loop net base_url page self w = scrape_loop net base_url (page + 1) self2 w2"
  by (subst scrape_loop.simps) simp

section \<open>Transport failures\<close>

lemma stops_at_failure_same: "stops_at_failure net rs raised rs"
  by (simp add: stops_at_failure_def)

lemma stops_at_failure_trans:
  assumes "stops_at_failure net rs False rs1"
      and "stops_at_failure net rs1 raised rs2"
  shows "stops_at_failure net rs raised rs2"
proof -
  from assms(1) obtain new1 where
    n1: "rs1 = rs @ new1" and
    f1: "\<forall>j<length new1. fst (net (length rs + j) (new1 ! j)) \<noteq> TransportFailure"
    unfolding stops_at_failure_def by blast
  from assms(2) obtain new2 where
    n2: "rs2 = rs1 @ new2" and
    f2: "\<forall>j<length new2. fst (net (length rs1 + j) (new2 ! j)) = TransportFailure
           \<longrightarrow> Suc j = length new2 \<and> raised"
    unfolding stops_at_failure_def by blast
  have "rs2 = rs @ (new1 @ new2)"
    using n1 n2 by simp
  moreover have "\<forall>j<length (new1 @ new2).
      fst (net (length rs + j) ((new1 @ new2) ! j)) = TransportFailure
        \<longrightarrow> Suc j = length (new1 @ new2) \<and> raised"
  proof (intro allI impI)
    fix j
    assume j: "j < length (new1 @ new2)"
      and t: "fst (net (length rs + j) ((new1 @ new2) ! j)) = TransportFailure"
    show "Suc j = length (new1 @ new2) \<and> raised"
    proof (cases "j < length new1")
      case True
      with t f1 show ?thesis
        by (simp add: nth_append)
    next
      case False
      define i where "i = j - length new1"
      have i: "i < length new2" "j = length new1 + i"
        using False j by (simp_all add: i_def)
      have "fst (net (length rs1 + i) (new2 ! i)) = TransportFailure"
        using t i n1 by (simp add: nth_append add.assoc)
      with f2 i(1) have "Suc i = length new2 \<and> raised"
        by blast
      with i(2) show ?thesis
        by simp
    qed
  qed
  ultimately show ?thesis
    unfolding stops_at_failure_def by blast
qed

lemma scrape_page_stops_at_failure:
  "stops_at_failure net (requests w) (fst (scrape_page net u w) = Inl RequestException)
     (requests (snd (scrape_page net u w)))"
proof -
  have "fst (net (length (requests w)) u) = TransportFailure \<longrightarrow>
        fst (scrape_page net u w) = Inl RequestException"
    by (simp add: scrape_page_def Let_def split: prod.splits)
  then have "\<forall>j<length [u]. fst (net (length (requests w) + j) ([u] ! j)) = TransportFailure
       \<longrightarrow> Suc j = length [u] \<and> fst (scrape_page net u w) = Inl RequestException"
    by simp
  then show ?thesis
    unfolding stops_at_failure_def scrape_page_requests by blast
qed

lemma retry_loop_stops_at_failure:
  "stops_at_failure net (requests w) (fst (retry_loop net u retries ps w) = Inl RequestException)
     (requests (snd (retry_loop net u retries ps w)))"
proof (induction retries arbitrary: ps w)
  case 0
  show ?case by (simp add: stops_at_failure_same)
next
  case (Suc retries)
  obtain r w1 where sp: "scrape_page net u w = (r, w1)"
    by (cases "scrape_page net u w")
  have first: "stops_at_failure net (requests w) (r = Inl RequestException) (requests w1)"
    using scrape_page_stops_at_failure [of net w u] sp by simp
  show ?case
  proof (cases "r = Inr []")
    case True
    with first have "stops_at_failure net (requests w) False (requests (sleep 2 w1))"
      by (simp add: requests_sleep)
    from stops_at_failure_trans [OF this Suc.IH [of "sleep 2 w1" "[]"]] sp True
    show ?thesis by simp
  next
    case False
    then have "retry_loop net u (Suc retries) ps w = (r, w1)"
      using sp by (cases r) simp_all
    with first show ?thesis by simp
  qed
qed

lemma scrape_loop_stops_at_failure:
  "stops_at_failure net (requests w)
     (fst (scrape_loop net base_url page self w) = Inl RequestException)
     (requests (snd (snd (scrape_loop net base_url page self w))))"
proof (induction net base_url page self w rule: scrape_loop.induct)
  case (1 net base_url page self w)
  show ?case
  proof (cases "page < 10 \<and> \<not> max_pages_exceeded (settings self) page")
    case False
    then show ?thesis
      by (simp add: scrape_loop_stop stops_at_failure_same)
  next
    case True
    then have lt: "page < 10" and mp: "\<not> max_pages_exceeded (settings self) page"
      by simp_all
    obtain r w1 where rl: "retry_loop net (page_url base_url page) 3 [] w = (r, w1)"
      by (cases "retry_loop net (page_url base_url page) 3 [] w")
    have first: "stops_at_failure net (requests w) (r = Inl RequestException) (requests w1)"
      using retry_loop_stops_at_failure [of net w "page_url base_url page" 3 "[]"] rl by simp
    show ?thesis
    proof (cases r)
      case (Inl e)
      with rl have "scrape_loop net base_url page self w = (Inl e, self, w1)"
        using scrape_loop_raise [OF lt mp] by simp
      with first Inl show ?thesis by simp
    next
      case (Inr products)
      with first have upto1: "stops_at_failure net (requests w) False (requests w1)"
        by simp
      show ?thesis
      proof (cases "products = []")
        case True
        with rl Inr have "scrape_loop net base_url page self w = (Inr (), self, w1)"
          using scrape_loop_empty [OF lt mp] by simp
        with upto1 show ?thesis by simp
      next
        case False
        obtain self2 w2 where pp: "process_products products self w1 = (self2, w2)"
          by (cases "process_products products self w1")
        have "requests w2 = requests w1"
          by (rule process_products_requests [OF pp])
        with upto1 have upto2: "stops_at_failure net (requests w) False (requests w2)"
          by simp
        have rl': "retry_loop net (page_url base_url page) 3 [] w = (Inr products, w1)"
          using rl Inr by simp
        have eq: "scrape_loop net base_url page self w
                = scrape_loop net base_url (page + 1) self2 w2"
          by (rule scrape_loop_next [OF lt mp rl' False pp])
        have "stops_at_failure net (requests w2)
               (fst (scrape_loop net base_url (page + 1) self2 w2) = Inl RequestException)
               (requests (snd (snd (scrape_loop net base_url (page + 1) self2 w2))))"
          using "1.IH" [of r w1 products self2 w2] lt mp rl Inr pp False by simp
        from stops_at_failure_trans [OF upto2 this] eq show ?thesis
          by simp
      qed
    qed
  qed
qed


text \<open>
  Claim C7. A GET of the crawl that ends in a transport failure is the last GET of the
  crawl, and the crawl ends in \<^verbatim>\<open>RequestException\<close>: neither the retry loop nor the page
  loop catches it, so no retry and no later page follows it.
\<close>

theorem transport_failure_aborts_crawl:
  assumes "scrape_catalogue net base_url self w = (res, self', w')"
      and "length (requests w) \<le> i"
      and "i < length (requests w')"
      and "fst (net i (requests w' ! i)) = TransportFailure"
  shows "res = Inl RequestException \<and> Suc i = length (requests w')"
proof -
  have "stops_at_failure net (requests w) (res = Inl RequestException) (requests w')"
    using scrape_loop_stops_at_failure [of net w base_url 1 self] assms(1)
    by (simp add: scrape_catalogue_def)
  then obtain new where
    n: "requests w' = requests w @ new" and
    f: "\<forall>j<length new. fst (net (length (requests w) + j) (new ! j)) = TransportFailure
          \<longrightarrow> Suc j = length new \<and> res = Inl RequestException"
    unfolding stops_at_failure_def by blast
  define j where "j = i - length (requests w)"
  have j: "j < length new" "i = length (requests w) + j"
    using assms(2,3) n by (simp_all add: j_def)
  have "fst (net (length (requests w) + j) (new ! j)) = TransportFailure"
    using assms(4) j n by (simp add: nth_append)
  with f j(1) have "Suc j = length new \<and> res = Inl RequestException"
    by blast
  with j(2) n show ?thesis
    by simp
qed

lemma crawl_A_then_down:
  "requests (snd (snd (scrape_catalogue net_A_then_down ''shop'' scraper0 world0)))
     = [''shop?page=1'', ''shop?page=2'']"
  by code_simp

theorem transport_failure_aborts_crawl_witness:
  "fst (scrape_catalogue net_A_then_down ''shop'' scraper0 world0) = Inl RequestException
   \<and> length (requests (snd (snd (scrape_catalogue net_A_then_down ''shop'' scraper0 world0)))) = 2"
proof -
  let ?run = "scrape_catalogue net_A_then_down ''shop'' scraper0 world0"
  have run: "?run = (fst ?run, fst (snd ?run), snd (snd ?run))"
    by simp
  have start: "length (requests world0) \<le> 1"
    by (simp add: world0_def)
  have made: "1 < length (requests (snd (snd ?run)))"
    by (simp add: crawl_A_then_down)
  have down: "fst (net_A_then_down 1 (requests (snd (snd ?run)) ! 1)) = TransportFailure"
    by (simp add: net_A_then_down_def)
  from transport_failure_aborts_crawl [OF run start made down] show ?thesis
    by simp
qed

section \<open>The empty page ends the crawl\<close>

lemma pages_done_scrape_loop:
  "pages_done net base_url n page self w = Some (q, self_q, w_q) \<Longrightarrow>
   scrape_loop net base_url page self w = scrape_loop net base_url q self_q w_q
   \<and> q = page + int n
   \<and> (\<exists>later. scraped_data self_q = scraped_data self @ later)"
proof (induction n arbitrary: page self w)
  case 0
  then show ?case by simp
next
  case (Suc n)
  from Suc.prems have lt: "page < 10" and mp: "\<not> max_pages_exceeded (settings self) page"
    by (simp_all split: if_splits)
  obtain r w1 where rl: "retry_loop net (page_url base_url page) 3 [] w = (r, w1)"
    by (cases "retry_loop net (page_url base_url page) 3 [] w")
  with Suc.prems lt mp obtain products where r: "r = Inr products" and ne: "products \<noteq> []"
    by (cases r) (simp_all split: if_splits)
  obtain self2 w2 where pp: "process_products products self w1 = (self2, w2)"
    by (cases "process_products products self w1")
  have rest: "pages_done net base_url n (page + 1) self2 w2 = Some (q, self_q, w_q)"
    using Suc.prems lt mp rl r ne pp by simp
  have step: "scrape_loop net base_url page self w = scrape_loop net base_url (page + 1) self2 w2"
    using scrape_loop_next [OF lt mp _ ne pp] rl r by simp
  from process_products_data_grows [OF pp] obtain acc where
    acc: "scraped_data self2 = scraped_data self @ acc"
    by blast
  from Suc.IH [OF rest] obtain later where
    "scrape_loop net base_url (page + 1) self2 w2 = scrape_loop net base_url q self_q w_q"
    "q = page + 1 + int n"
    "scraped_data self_q = scraped_data self2 @ later"
    by blast
  with step acc show ?case
    by simp
qed

lemma retry_loop_empty_result:
  "retry_loop net u retries [] w = (Inr [], w1) \<Longrightarrow>
   requests w1 = requests w @ replicate retries u"
proof (induction retries arbitrary: w)
  case 0
  then show ?case by simp
next
  case (Suc retries)
  obtain r w' where sp: "scrape_page net u w = (r, w')"
    by (cases "scrape_page net u w")
  have rq: "requests w' = requests w @ [u]"
    using scrape_page_requests [of net u w] sp by simp
  from Suc.prems sp have re: "r = Inr []"
    by (cases r) (auto split: if_splits)
  with Suc.prems sp have "retry_loop net u retries [] (sleep 2 w') = (Inr [], w1)"
    by simp
  from Suc.IH [OF this] rq show ?case
    by (simp add: requests_sleep)
qed

text \<open>
  Claim C8. Let the crawl have completed \<open>n\<close> pages, each with a non-empty result, and be
  at page \<open>q\<close>, inside both page bounds, with scraper \<open>self_q\<close>. When the retry loop of
  page \<open>q\<close> resolves to the empty list, the crawl ends there without an error: the world
  it ends in is the one the retry loop left, whose request log ends with the three
  attempts at page \<open>q\<close>, and the scraper it ends with is \<open>self_q\<close>, whose \<open>scraped_data\<close>
  extends what the crawl started with by the records accepted from the earlier pages.
\<close>

theorem crawl_stops_at_first_empty_page:
  assumes "pages_done net base_url n 1 self w = Some (q, self_q, w_q)"
      and "q < 10"
      and "\<not> max_pages_exceeded (settings self_q) q"
      and "retry_loop net (page_url base_url q) 3 [] w_q = (Inr [], w1)"
  shows "scrape_catalogue net base_url self w = (Inr (), self_q, w1)
       \<and> requests w1 = requests w_q @ replicate 3 (page_url base_url q)
       \<and> (\<exists>later. scraped_data self_q = scraped_data self @ later)"
proof -
  from pages_done_scrape_loop [OF assms(1)] obtain later where
    same: "scrape_loop net base_url 1 self w = scrape_loop net base_url q self_q w_q" and
    kept: "scraped_data self_q = scraped_data self @ later"
    by blast
  have "scrape_loop net base_url q self_q w_q = (Inr (), self_q, w1)"
    by (rule scrape_loop_empty [OF assms(2,3,4)])
  with same have "scrape_catalogue net base_url self w = (Inr (), self_q, w1)"
    by (simp add: scrape_catalogue_def)
  moreover have "requests w1 = requests w_q @ replicate 3 (page_url base_url q)"
    by (rule retry_loop_empty_result [OF assms(4)])
  ultimately show ?thesis
    using kept by blast
qed

lemma scenario_two_pages:
  "pages_done net_scenario ''shop/catalogue'' 2 1 scraper3 world0 \<noteq> None"
  "fst (the (pages_done net_scenario ''shop/catalogue'' 2 1 scraper3 world0)) = 3"
  "scraped_data (fst (snd (the (pages_done net_scenario ''shop/catalogue'' 2 1 scraper3 world0))))
     = [productP, productQ, productR]"
  "settings (fst (snd (the (pages_done net_scenario ''shop/catalogue'' 2 1 scraper3 world0))))
     = \<lparr>max_pages = Some 3, proxy = None\<rparr>"
  "fst (retry_loop net_scenario (page_url ''shop/catalogue'' 3) 3 []
          (snd (snd (the (pages_done net_scenario ''shop/catalogue'' 2 1 scraper3 world0)))))
     = Inr []"
  "requests (snd (snd (the (pages_done net_scenario ''shop/catalogue'' 2 1 scraper3 world0))))
     = [''shop/catalogue?page=1'', ''shop/catalogue?page=2'']"
  by code_simp+

theorem crawl_stops_at_first_empty_page_witness:
  "fst (scrape_catalogue net_scenario ''shop/catalogue'' scraper3 world0) = Inr ()
   \<and> scraped_data (fst (snd (scrape_catalogue net_scenario ''shop/catalogue'' scraper3 world0)))
       = [productP, productQ, productR]
   \<and> requests (snd (snd (scrape_catalogue net_scenario ''shop/catalogue'' scraper3 world0)))
       = [''shop/catalogue?page=1'', ''shop/catalogue?page=2'', ''shop/catalogue?page=3'',
          ''shop/catalogue?page=3'', ''shop/catalogue?page=3'']"
proof -
  let ?at = "the (pages_done net_scenario ''shop/catalogue'' 2 1 scraper3 world0)"
  let ?rl = "retry_loop net_scenario (page_url ''shop/catalogue'' (fst ?at)) 3 [] (snd (snd ?at))"
  have reached: "pages_done net_scenario ''shop/catalogue'' 2 1 scraper3 world0
                   = Some (fst ?at, fst (snd ?at), snd (snd ?at))"
    using scenario_two_pages(1) by simp
  have lt: "fst ?at < 10"
    by (simp add: scenario_two_pages(2))
  have mp: "\<not> max_pages_exceeded (settings (fst (snd ?at))) (fst ?at)"
    by (simp add: scenario_two_pages(2,4) max_pages_exceeded_def)
  have rl: "?rl = (Inr [], snd ?rl)"
    using scenario_two_pages(5) by (simp add: scenario_two_pages(2) prod_eq_iff)
  from crawl_stops_at_first_empty_page [OF reached lt mp rl] show ?thesis
    by (simp add: scenario_two_pages(2,3,6) page_url_def str_int_def str_nat.simps digit_def
        numeral_3_eq_3)
qed

section \<open>Page URLs are distinct\<close>

lemma digit_inj: "a < 10 \<Longrightarrow> b < 10 \<Longrightarrow> digit a = digit b \<Longrightarrow> a = b"
proof -
  have d: "distinct ''0123456789''"
    by simp
  assume "a < 10" "b < 10" "digit a = digit b"
  then show "a = b"
    using d by (simp add: digit_def nth_eq_iff_index_eq del: distinct.simps)
qed

lemma digit_not_minus: "d < 10 \<Longrightarrow> digit d \<noteq> CHR ''-''"
proof -
  assume "d < 10"
  then have "digit d \<in> set ''0123456789''"
    unfolding digit_def by (intro nth_mem) simp
  then show ?thesis by auto
qed

lemma str_nat_not_Nil: "str_nat n \<noteq> []"
  by (subst str_nat.simps) simp

lemma str_nat_hd_not_minus: "hd (str_nat n) \<noteq> CHR ''-''"
proof (induction n rule: str_nat.induct)
  case (1 n)
  show ?case
  proof (cases "n < 10")
    case True
    then show ?thesis
      by (subst str_nat.simps) (simp add: digit_not_minus)
  next
    case False
    with "1.IH" show ?thesis
      by (subst str_nat.simps) (simp add: str_nat_not_Nil)
  qed
qed

lemma str_nat_inj: "str_nat n = str_nat m \<Longrightarrow> n = m"
proof (induction n arbitrary: m rule: str_nat.induct)
  case (1 n)
  show ?case
  proof (cases "n < 10")
    case True
    then have n: "str_nat n = [digit n]"
      by (subst str_nat.simps) simp
    show ?thesis
    proof (cases "m < 10")
      case True
      then have "str_nat m = [digit m]"
        by (subst str_nat.simps) simp
      with n "1.prems" \<open>n < 10\<close> True show ?thesis
        by (simp add: digit_inj)
    next
      case False
      then have "str_nat m = str_nat (m div 10) @ [digit (m mod 10)]"
        by (subst str_nat.simps) simp
      with n "1.prems" str_nat_not_Nil [of "m div 10"] show ?thesis
        by auto
    qed
  next
    case False
    then have n: "str_nat n = str_nat (n div 10) @ [digit (n mod 10)]"
      by (subst str_nat.simps) simp
    show ?thesis
    proof (cases "m < 10")
      case True
      then have "str_nat m = [digit m]"
        by (subst str_nat.simps) simp
      with n "1.prems" str_nat_not_Nil [of "n div 10"] show ?thesis
        by auto
    next
      case m: False
      then have "str_nat m = str_nat (m div 10) @ [digit (m mod 10)]"
        by (subst str_nat.simps) simp
      with n "1.prems" have
        "str_nat (n div 10) = str_nat (m div 10)" "digit (n mod 10) = digit (m mod 10)"
        by simp_all
      with "1.IH" [OF False] have "n div 10 = m div 10" "n mod 10 = m mod 10"
        by (simp_all add: digit_inj)
      then show ?thesis
        by (metis div_mult_mod_eq)
    qed
  qed
qed

lemma str_int_inj: "str_int i = str_int j \<Longrightarrow> i = j"
proof -
  assume eq: "str_int i = str_int j"
  have hd: "hd (str_nat n) \<noteq> CHR ''-''" for n
    by (rule str_nat_hd_not_minus)
  show "i = j"
  proof (cases "i < 0")
    case True
    show ?thesis
    proof (cases "j < 0")
      case j: True
      with True eq have "nat (- i) = nat (- j)"
        by (simp add: str_int_def str_nat_inj)
      with True j show ?thesis by simp
    next
      case False
      with True eq hd [of "nat j"] show ?thesis
        by (auto simp: str_int_def dest: arg_cong [where f = hd])
    qed
  next
    case False
    show ?thesis
    proof (cases "j < 0")
      case True
      with False eq hd [of "nat i"] show ?thesis
        by (auto simp: str_int_def dest: arg_cong [where f = hd])
    next
      case j: False
      with False eq have "nat i = nat j"
        by (simp add: str_int_def str_nat_inj)
      with False j show ?thesis by simp
    qed
  qed
qed

lemma page_url_inj: "page_url base_url p = page_url base_url q \<Longrightarrow> p = q"
  by (simp add: page_url_def str_int_inj)

lemma distinct_page_urls: "distinct (map (page_url base_url) [i..j])"
  by (simp add: distinct_map inj_on_def page_url_inj)


section \<open>Crawls over non-empty pages\<close>

lemma retry_loop_yields:
  assumes "\<forall>n u. yields_products (fst (net n u))"
  shows "\<exists>products w1. retry_loop net u 3 ps w = (Inr products, w1) \<and> products \<noteq> []
           \<and> requests w1 = requests w @ [u]"
proof -
  from assms have "yields_products (fst (net (length (requests w)) u))"
    by blast
  then obtain A where a: "attempt net u w 0 = Inr A" "A \<noteq> []"
    by (auto simp: yields_products_def attempt_def split: reply.splits sum.splits)
  have "fst (retry_loop net u 3 ps w) = Inr A
      \<and> requests (snd (retry_loop net u 3 ps w)) = requests w @ replicate (Suc 0) u"
    using retry_loop_first_nonempty [of 0 3 net u w A ps] a by simp
  with a(2) show ?thesis
    by (cases "retry_loop net u 3 ps w") auto
qed

lemma scrape_loop_nonempty_pages:
  assumes "\<forall>n u. yields_products (fst (net n u))"
      and "\<forall>p. (p < 10 \<and> \<not> max_pages_exceeded (settings self) p) = (p \<le> last_page)"
  shows "fst (scrape_loop net base_url page self w) = Inr ()
       \<and> requests (snd (snd (scrape_loop net base_url page self w)))
           = requests w @ map (page_url base_url) [page..last_page]"
  using assms
proof (induction net base_url page self w rule: scrape_loop.induct)
  case (1 net base_url page self w)
  show ?case
  proof (cases "page \<le> last_page")
    case False
    with "1.prems"(2) have "\<not> (page < 10 \<and> \<not> max_pages_exceeded (settings self) page)"
      by blast
    with False show ?thesis
      by (simp add: scrape_loop_stop)
  next
    case True
    with "1.prems"(2) have lt: "page < 10" and mp: "\<not> max_pages_exceeded (settings self) page"
      by blast+
    from retry_loop_yields [OF "1.prems"(1), of "page_url base_url page" "[]" w]
    obtain products w1 where
      rl: "retry_loop net (page_url base_url page) 3 [] w = (Inr products, w1)" and
      ne: "products \<noteq> []" and
      rq: "requests w1 = requests w @ [page_url base_url page]"
      by blast
    obtain self2 w2 where pp: "process_products products self w1 = (self2, w2)"
      by (cases "process_products products self w1")
    have st: "settings self2 = settings self"
      by (rule process_products_settings [OF pp])
    have rq2: "requests w2 = requests w1"
      by (rule process_products_requests [OF pp])
    have eq: "scrape_loop net base_url page self w
            = scrape_loop net base_url (page + 1) self2 w2"
      by (rule scrape_loop_next [OF lt mp rl ne pp])
    have "fst (scrape_loop net base_url (page + 1) self2 w2) = Inr ()
        \<and> requests (snd (snd (scrape_loop net base_url (page + 1) self2 w2)))
            = requests w2 @ map (page_url base_url) [page + 1..last_page]"
      using "1.IH" [of "Inr products" w1 products self2 w2] lt mp rl ne pp "1.prems" st
      by simp
    with eq rq rq2 True show ?thesis
      by (simp add: upto_rec1 [of page last_page])
  qed
qed

lemma page_url_beyond: "last_page < p \<Longrightarrow> page_url base_url p \<notin> set (map (page_url base_url) [i..last_page])"
  by (auto dest: page_url_inj)

text \<open>
  Claim C3, as the code has it. With \<^verbatim>\<open>max_pages\<close> unset or at least 10 and a server whose
  every page yields records, the crawl ends without an error after requesting each of the
  pages 1 to 9 exactly once, in order; page 10 and every later page is never requested.
\<close>

theorem crawl_visits_pages_one_to_nine:
  assumes "\<forall>n u. yields_products (fst (net n u))"
      and "max_pages (settings self) = None \<or> (\<exists>m. max_pages (settings self) = Some m \<and> 10 \<le> m)"
      and "scrape_catalogue net base_url self w = (res, self', w')"
  shows "res = Inr ()
       \<and> requests w' = requests w @ map (page_url base_url) [1..9]
       \<and> distinct (map (page_url base_url) [1..9])
       \<and> (\<forall>p. 10 \<le> p \<longrightarrow> page_url base_url p \<notin> set (map (page_url base_url) [1..9]))"
proof -
  have "\<forall>p. (p < 10 \<and> \<not> max_pages_exceeded (settings self) p) = (p \<le> 9)"
    using assms(2) by (auto simp: max_pages_exceeded_def)
  from scrape_loop_nonempty_pages [OF assms(1) this, of base_url 1 w] assms(3)
  have "res = Inr () \<and> requests w' = requests w @ map (page_url base_url) [1..9]"
    by (simp add: scrape_catalogue_def)
  moreover have "\<forall>p. 10 \<le> p \<longrightarrow> page_url base_url p \<notin> set (map (page_url base_url) [1..9])"
    using page_url_beyond [of 9 _ base_url 1] by simp
  ultimately show ?thesis
    using distinct_page_urls [of base_url 1 9] by blast
qed

lemma net_always_A_yields: "\<forall>n u. yields_products (fst (net_always_A n u))"
  by (simp add: net_always_A_def yields_products_def parse_soupA)

lemma upto_1_9: "[1..9] = [1, 2, 3, 4, 5, 6, 7, 8, (9::int)]"
  by code_simp

theorem crawl_visits_pages_one_to_nine_witness:
  "fst (scrape_catalogue net_always_A ''shop'' scraper0 world0) = Inr ()
   \<and> requests (snd (snd (scrape_catalogue net_always_A ''shop'' scraper0 world0)))
       = map (page_url ''shop'') [1, 2, 3, 4, 5, 6, 7, 8, 9]"
proof -
  let ?run = "scrape_catalogue net_always_A ''shop'' scraper0 world0"
  have unset: "max_pages (settings scraper0) = None
             \<or> (\<exists>m. max_pages (settings scraper0) = Some m \<and> 10 \<le> m)"
    by (simp add: scraper0_def)
  have run: "?run = (fst ?run, fst (snd ?run), snd (snd ?run))"
    by simp
  from crawl_visits_pages_one_to_nine [OF net_always_A_yields unset run] show ?thesis
    by (simp add: world0_def upto_1_9)
qed

text \<open>
  Claim C3, as stated, at a server whose every page holds \<open>A\<close> and with \<^verbatim>\<open>max_pages\<close>
  unset: the crawl requests pages 1 to 9 and never page 10.
\<close>

theorem page_ten_never_requested_counterexample:
  "max_pages (settings scraper0) = None
   \<and> requests (snd (snd (scrape_catalogue net_always_A ''shop'' scraper0 world0)))
       = [''shop?page=1'', ''shop?page=2'', ''shop?page=3'', ''shop?page=4'', ''shop?page=5'',
          ''shop?page=6'', ''shop?page=7'', ''shop?page=8'', ''shop?page=9'']
   \<and> page_url ''shop'' 10
       \<notin> set (requests (snd (snd (scrape_catalogue net_always_A ''shop'' scraper0 world0))))"
  by code_simp




section \<open>The page limit zero\<close>

lemma process_product_with_settings:
  "process_product p (self\<lparr>settings := st\<rparr>) w =
     (case process_product p self w of (self', w') \<Rightarrow> (self'\<lparr>settings := st\<rparr>, w'))"
  by (simp add: process_product_def Let_def)

lemma process_products_with_settings:
  "process_products ps (self\<lparr>settings := st\<rparr>) w =
     (case process_products ps self w of (self', w') \<Rightarrow> (self'\<lparr>settings := st\<rparr>, w'))"
  by (induction ps arbitrary: self w) (simp_all add: process_product_with_settings split: prod.splits)

lemma scrape_loop_with_settings:
  assumes "scrape_loop net base_url page self w = (res, self', w')"
      and "\<forall>p. max_pages_exceeded st p = max_pages_exceeded (settings self) p"
  shows "scrape_loop net base_url page (self\<lparr>settings := st\<rparr>) w = (res, self'\<lparr>settings := st\<rparr>, w')"
  using assms
proof (induction net base_url page self w arbitrary: res self' w' rule: scrape_loop.induct)
  case (1 net base_url page self w)
  have same: "max_pages_exceeded (settings (self\<lparr>settings := st\<rparr>)) page
            = max_pages_exceeded (settings self) page"
    using "1.prems"(2) by simp
  show ?case
  proof (cases "page < 10 \<and> \<not> max_pages_exceeded (settings self) page")
    case False
    with "1.prems"(1) have "res = Inr ()" "self' = self" "w' = w"
      by (simp_all add: scrape_loop_stop)
    moreover from False same
    have "\<not> (page < 10 \<and> \<not> max_pages_exceeded (settings (self\<lparr>settings := st\<rparr>)) page)"
      by simp
    from scrape_loop_stop [OF this]
    have "scrape_loop net base_url page (self\<lparr>settings := st\<rparr>) w
            = (Inr (), self\<lparr>settings := st\<rparr>, w)" .
    ultimately show ?thesis
      by simp
  next
    case True
    then have lt: "page < 10" and mp: "\<not> max_pages_exceeded (settings self) page"
      by simp_all
    from mp same have mp': "\<not> max_pages_exceeded (settings (self\<lparr>settings := st\<rparr>)) page"
      by simp
    obtain r w1 where rl: "retry_loop net (page_url base_url page) 3 [] w = (r, w1)"
      by (cases "retry_loop net (page_url base_url page) 3 [] w")
    show ?thesis
    proof (cases r)
      case (Inl e)
      with rl have rl': "retry_loop net (page_url base_url page) 3 [] w = (Inl e, w1)"
        by simp
      from scrape_loop_raise [OF lt mp rl'] "1.prems"(1)
      have "res = Inl e" "self' = self" "w' = w1"
        by simp_all
      with scrape_loop_raise [OF lt mp' rl'] show ?thesis
        by simp
    next
      case (Inr products)
      with rl have rl': "retry_loop net (page_url base_url page) 3 [] w = (Inr products, w1)"
        by simp
      show ?thesis
      proof (cases "products = []")
        case True
        with rl' have rl0: "retry_loop net (page_url base_url page) 3 [] w = (Inr [], w1)"
          by simp
        from scrape_loop_empty [OF lt mp rl0] "1.prems"(1)
        have "res = Inr ()" "self' = self" "w' = w1"
          by simp_all
        with scrape_loop_empty [OF lt mp' rl0] show ?thesis
          by simp
      next
        case False
        obtain self2 w2 where pp: "process_products products self w1 = (self2, w2)"
          by (cases "process_products products self w1")
        then have pp': "process_products products (self\<lparr>settings := st\<rparr>) w1
                      = (self2\<lparr>settings := st\<rparr>, w2)"
          by (simp add: process_products_with_settings)
        have st2: "settings self2 = settings self"
          by (rule process_products_settings [OF pp])
        have "scrape_loop net base_url (page + 1) self2 w2 = (res, self', w')"
          using scrape_loop_next [OF lt mp rl' False pp] "1.prems"(1) by simp
        moreover have "\<forall>p. max_pages_exceeded st p = max_pages_exceeded (settings self2) p"
          using "1.prems"(2) st2 by simp
        ultimately have
          "scrape_loop net base_url (page + 1) (self2\<lparr>settings := st\<rparr>) w2
             = (res, self'\<lparr>settings := st\<rparr>, w')"
          using "1.IH" [of r w1 products self2 w2 res self' w'] lt mp rl Inr pp False
          by simp
        with scrape_loop_next [OF lt mp' rl' False pp'] show ?thesis
          by simp
      qed
    qed
  qed
qed

lemma scrape_loop_requests_grow:
  "\<exists>new. requests (snd (snd (scrape_loop net base_url page self w))) = requests w @ new"
  using scrape_loop_stops_at_failure [of net w base_url page self]
  unfolding stops_at_failure_def by blast

lemma retry_loop_first_request:
  "\<exists>more. requests (snd (retry_loop net u (Suc retries) ps w)) = requests w @ u # more"
proof -
  obtain r w1 where sp: "scrape_page net u w = (r, w1)"
    by (cases "scrape_page net u w")
  have rq: "requests w1 = requests w @ [u]"
    using scrape_page_requests [of net u w] sp by simp
  show ?thesis
  proof (cases "r = Inr []")
    case True
    from retry_loop_requests [of retries net u "[]" "sleep 2 w1"] obtain k where
      "requests (snd (retry_loop net u retries [] (sleep 2 w1)))
         = requests (sleep 2 w1) @ replicate k u"
      by blast
    with sp True rq show ?thesis
      by (simp add: requests_sleep)
  next
    case False
    then have "retry_loop net u (Suc retries) ps w = (r, w1)"
      using sp by (cases r) simp_all
    with rq show ?thesis by simp
  qed
qed

lemma scrape_loop_first_request:
  assumes "page < 10" and "\<not> max_pages_exceeded (settings self) page"
  shows "\<exists>more. requests (snd (snd (scrape_loop net base_url page self w)))
           = requests w @ page_url base_url page # more"
proof -
  let ?u = "page_url base_url page"
  obtain r w1 where rl: "retry_loop net ?u 3 [] w = (r, w1)"
    by (cases "retry_loop net ?u 3 [] w")
  from retry_loop_first_request [of net ?u 2 "[]" w] rl obtain more where
    rq: "requests w1 = requests w @ ?u # more"
    by (auto simp: numeral_3_eq_3)
  show ?thesis
  proof (cases r)
    case (Inl e)
    with scrape_loop_raise [OF assms, of net base_url w e w1] rl rq show ?thesis
      by simp
  next
    case (Inr products)
    show ?thesis
    proof (cases "products = []")
      case True
      with scrape_loop_empty [OF assms, of net base_url w w1] rl Inr rq show ?thesis
        by simp
    next
      case False
      obtain self2 w2 where pp: "process_products products self w1 = (self2, w2)"
        by (cases "process_products products self w1")
      have rq2: "requests w2 = requests w1"
        by (rule process_products_requests [OF pp])
      from scrape_loop_requests_grow [of net base_url "page + 1" self2 w2] obtain new where
        "requests (snd (snd (scrape_loop net base_url (page + 1) self2 w2))) = requests w2 @ new"
        by blast
      with scrape_loop_next [OF assms _ False pp, of net base_url w] rl Inr rq rq2 show ?thesis
        by simp
    qed
  qed
qed

text \<open>
  Claim C10. A crawl with \<^verbatim>\<open>max_pages = 0\<close> runs exactly as the crawl with \<^verbatim>\<open>max_pages\<close>
  unset does: same outcome, same records, same world; only the settings the scraper
  carries differ. It does not stop at zero pages: page 1 is requested.
\<close>

theorem max_pages_zero_is_unset:
  "scrape_catalogue net base_url (self\<lparr>settings := st\<lparr>max_pages := Some 0\<rparr>\<rparr>) w
     = (case scrape_catalogue net base_url (self\<lparr>settings := st\<lparr>max_pages := None\<rparr>\<rparr>) w of
          (res, self', w') \<Rightarrow> (res, self'\<lparr>settings := st\<lparr>max_pages := Some 0\<rparr>\<rparr>, w'))
   \<and> (\<exists>more. requests (snd (snd (scrape_catalogue net base_url
                                     (self\<lparr>settings := st\<lparr>max_pages := Some 0\<rparr>\<rparr>) w)))
               = requests w @ page_url base_url 1 # more)"
proof -
  let ?unset = "self\<lparr>settings := st\<lparr>max_pages := None\<rparr>\<rparr>"
  let ?zero = "self\<lparr>settings := st\<lparr>max_pages := Some 0\<rparr>\<rparr>"
  obtain res self' w' where run: "scrape_loop net base_url 1 ?unset w = (res, self', w')"
    by (cases "scrape_loop net base_url 1 ?unset w")
  have "\<forall>p. max_pages_exceeded (st\<lparr>max_pages := Some 0\<rparr>) p
           = max_pages_exceeded (settings ?unset) p"
    by (simp add: max_pages_exceeded_def)
  from scrape_loop_with_settings [OF run this]
  have "scrape_loop net base_url 1 ?zero w = (res, self'\<lparr>settings := st\<lparr>max_pages := Some 0\<rparr>\<rparr>, w')"
    by simp
  with run have first: "scrape_catalogue net base_url ?zero w
     = (case scrape_catalogue net base_url ?unset w of
          (res, self', w') \<Rightarrow> (res, self'\<lparr>settings := st\<lparr>max_pages := Some 0\<rparr>\<rparr>, w'))"
    by (simp add: scrape_catalogue_def)
  have "\<not> max_pages_exceeded (settings ?zero) 1"
    by (simp add: max_pages_exceeded_def)
  from scrape_loop_first_request [OF _ this, of net base_url w]
  have "\<exists>more. requests (snd (snd (scrape_catalogue net base_url ?zero w)))
               = requests w @ page_url base_url 1 # more"
    by (simp add: scrape_catalogue_def)
  with first show ?thesis
    by blast
qed

lemma scraper_zero_eq:
  "scraper_zero = scraper0\<lparr>settings := \<lparr>max_pages = None, proxy = None\<rparr>\<lparr>max_pages := Some 0\<rparr>\<rparr>"
  "scraper0 = scraper0\<lparr>settings := \<lparr>max_pages = None, proxy = None\<rparr>\<lparr>max_pages := None\<rparr>\<rparr>"
  by (simp_all add: scraper_zero_def scraper0_def)

lemma crawl_unset_always_A:
  "requests (snd (snd (scrape_catalogue net_always_A ''shop'' scraper0 world0)))
     = [''shop?page=1'', ''shop?page=2'', ''shop?page=3'', ''shop?page=4'', ''shop?page=5'',
        ''shop?page=6'', ''shop?page=7'', ''shop?page=8'', ''shop?page=9'']"
  by code_simp

theorem max_pages_zero_is_unset_witness:
  "requests (snd (snd (scrape_catalogue net_always_A ''shop'' scraper_zero world0)))
     = [''shop?page=1'', ''shop?page=2'', ''shop?page=3'', ''shop?page=4'', ''shop?page=5'',
        ''shop?page=6'', ''shop?page=7'', ''shop?page=8'', ''shop?page=9'']"
proof -
  have "scrape_catalogue net_always_A ''shop'' scraper_zero world0
      = (case scrape_catalogue net_always_A ''shop'' scraper0 world0 of
           (res, self', w') \<Rightarrow>
             (res, self'\<lparr>settings := \<lparr>max_pages = None, proxy = None\<rparr>\<lparr>max_pages := Some 0\<rparr>\<rparr>, w'))"
    using max_pages_zero_is_unset [where net = net_always_A and base_url = "''shop''"
            and self = scraper0 and st = "\<lparr>max_pages = None, proxy = None\<rparr>" and w = world0]
    by (simp only: scraper_zero_eq [symmetric])
  then have "requests (snd (snd (scrape_catalogue net_always_A ''shop'' scraper_zero world0)))
           = requests (snd (snd (scrape_catalogue net_always_A ''shop'' scraper0 world0)))"
    by (simp add: case_prod_unfold)
  then show ?thesis
    by (simp only: crawl_unset_always_A)
qed

section \<open>What \<^verbatim>\<open>start_scraping\<close> saves\<close>

lemma start_scraping_saves_literal:
  assumes "scrape_catalogue net base_url \<lparr>settings = st, scraped_data = []\<rparr> w = (Inr u, scraper', w')"
  shows "files (snd (snd (start_scraping net st base_url w))) ''./data.json''
           = Some (JString ''scraped_data.json'')
       \<and> fst (snd (start_scraping net st base_url w)) = scraper'"
  using assms by (simp add: start_scraping_def Let_def save_def notify_def)

lemma start_scraping_raises:
  assumes "scrape_catalogue net base_url \<lparr>settings = st, scraped_data = []\<rparr> w = (Inl e, scraper', w')"
  shows "start_scraping net st base_url w = (Inl e, scraper', w')"
  using assms by (simp add: start_scraping_def)

text \<open>
  Claim C2, evaluated on the end-to-end scenario with \<^verbatim>\<open>max_pages = 3\<close>. The crawl succeeds
  with the three records \<open>P\<close>, \<open>Q\<close>, \<open>R\<close> in \<open>scraped_data\<close>, and what \<^verbatim>\<open>save\<close> writes to
  \<^verbatim>\<open>./data.json\<close> is the string \<^verbatim>\<open>"scraped_data.json"\<close>, not those records.
\<close>

theorem save_receives_string_literal:
  "fst (start_scraping net_scenario \<lparr>max_pages = Some 3, proxy = None\<rparr> ''http://shop.example/catalogue'' world0)
     = Inr \<lparr>message = ''Scraping completed successfully.'', products_scraped = 3\<rparr>
   \<and> scraped_data (fst (snd (start_scraping net_scenario \<lparr>max_pages = Some 3, proxy = None\<rparr>
                                ''http://shop.example/catalogue'' world0)))
       = [productP, productQ, productR]
   \<and> files (snd (snd (start_scraping net_scenario \<lparr>max_pages = Some 3, proxy = None\<rparr>
                        ''http://shop.example/catalogue'' world0))) ''./data.json''
       = Some (JString ''scraped_data.json'')
   \<and> files (snd (snd (start_scraping net_scenario \<lparr>max_pages = Some 3, proxy = None\<rparr>
                        ''http://shop.example/catalogue'' world0))) ''./data.json''
       \<noteq> Some (JProducts [productP, productQ, productR])
   \<and> notified (snd (snd (start_scraping net_scenario \<lparr>max_pages = Some 3, proxy = None\<rparr>
                        ''http://shop.example/catalogue'' world0)))
       = [''Scraping complete. 3 products scraped.'']"
  by code_simp

end
